theory Spec2Isabelle
  imports Main "HOL-Library.Sublist"
begin

section \<open>Hotplug detection of keyboard devices (DeviceDetect.cc)\<close>

text \<open>
  A shallow embedding of \<^verbatim>\<open>src/DeviceDetect.cc\<close>. A \<^verbatim>\<open>std::string\<close> is a
  \<^typ>\<open>string\<close>, a position of type \<^verbatim>\<open>size_t\<close> is a \<^typ>\<open>nat\<close> (the places
  where unsigned arithmetic could wrap are written out), \<^verbatim>\<open>std::string::npos\<close> as
  the result of a search is \<^const>\<open>None\<close>. An exception that nobody catches and a
  null stream handed to the C library are values of the type \<open>error\<close>.
\<close>

subsection \<open>The string operations the code uses\<close>

datatype error =
    Out_of_range    \<comment> \<open>\<^verbatim>\<open>std::out_of_range\<close>, thrown by \<^verbatim>\<open>substr\<close> and \<^verbatim>\<open>erase\<close>\<close>
  | Null_stream     \<comment> \<open>a null \<^verbatim>\<open>FILE *\<close> handed to \<^verbatim>\<open>feof\<close>\<close>
  | Unterminated    \<comment> \<open>a \<^verbatim>\<open>char\<close> array without a zero byte read as a C string\<close>

text \<open>The largest value of \<^verbatim>\<open>size_t\<close> on the 64-bit target: \<^verbatim>\<open>std::string::npos\<close>.\<close>

definition npos :: nat where
  "npos = 2 ^ 64 - 1"

text \<open>
  \<^verbatim>\<open>s.find(pat)\<close> on what is left of the string: the least offset at which \<open>pat\<close>
  starts, \<^const>\<open>None\<close> when there is none.
\<close>

fun find_sub :: "string \<Rightarrow> string \<Rightarrow> nat option" where
  "find_sub pat [] = (if pat = [] then Some 0 else None)"
| "find_sub pat (c # cs) =
     (if take (length pat) (c # cs) = pat then Some 0
      else map_option Suc (find_sub pat cs))"

text \<open>\<^verbatim>\<open>s.find(pat, pos)\<close>: the search starts at index \<open>pos\<close>.\<close>

definition find_str :: "string \<Rightarrow> string \<Rightarrow> nat \<Rightarrow> nat option" where
  "find_str s pat pos =
     (if length s < pos then None
      else map_option (\<lambda>i. pos + i) (find_sub pat (drop pos s)))"

text \<open>
  \<^verbatim>\<open>s.substr(pos, count)\<close> throws when \<open>pos\<close> is beyond the end and otherwise
  copies at most \<open>count\<close> characters, fewer when the string ends first.
\<close>

definition substr :: "string \<Rightarrow> nat \<Rightarrow> nat \<Rightarrow> error + string" where
  "substr s pos count =
     (if length s < pos then Inl Out_of_range else Inr (take count (drop pos s)))"

text \<open>
  \<^verbatim>\<open>s.erase(s.size() - 1)\<close>: the index is computed in \<^verbatim>\<open>size_t\<close>, so on the empty
  string it wraps to \<^const>\<open>npos\<close>; \<^verbatim>\<open>erase(index)\<close> throws when the index is
  beyond the end and otherwise removes everything from the index on.
\<close>

definition erase_last :: "string \<Rightarrow> error + string" where
  "erase_last s =
     (let index = (if length s = 0 then npos else length s - 1)
      in if length s < index then Inl Out_of_range else Inr (take index s))"

text \<open>
  A \<^verbatim>\<open>char\<close> array handed to a \<^verbatim>\<open>std::string\<close> parameter is read as a C string:
  up to the first zero byte.
\<close>

definition c_str :: "string \<Rightarrow> string" where
  "c_str buf = takeWhile (\<lambda>c. c \<noteq> CHR 0x00) buf"

subsection \<open>Event-ID extraction and action classification\<close>

text \<open>
  \<^verbatim>\<open>get_event_id\<close>, lines 92 to 104. The count handed to \<^verbatim>\<open>substr\<close> is
  \<^verbatim>\<open>pos_stop - pos - 1\<close>, as the source writes it. The subtraction is one of
  \<^verbatim>\<open>size_t\<close>; it cannot wrap, because the separator is searched from \<open>pos\<close> on,
  where the five characters of the token stand (lemma \<open>find_slash_after_token\<close>).
\<close>

definition get_event_id :: "string \<Rightarrow> error + string" where
  "get_event_id buf =
     (case find_str buf ''event'' 0 of
        None \<Rightarrow> Inr ''''
      | Some pos \<Rightarrow>
          (let pos_stop = (case find_str buf ''/'' pos of
                             None \<Rightarrow> length buf
                           | Some p \<Rightarrow> p)
           in substr buf (pos + 5) (pos_stop - pos - 1)))"

text \<open>\<^verbatim>\<open>device_state\<close>, lines 107 to 111: 1 for an insertion, -1 for a removal, else 0.\<close>

definition device_state :: "string \<Rightarrow> int" where
  "device_state str =
     (if find_str str ''add'' 0 = Some 0 then 1
      else if find_str str ''remove'' 0 = Some 0 then - 1
      else 0)"

subsection \<open>The environment: pipes, threads and the registry of tasks\<close>

text \<open>
  Everything the code does to the outside world is recorded, in order, in a trace.
\<close>

datatype event =
    Cout string       \<comment> \<open>a line written to \<^verbatim>\<open>std::cout\<close>\<close>
  | Popen string      \<comment> \<open>\<^verbatim>\<open>popen(cmd, "r")\<close>\<close>
  | Pclose            \<comment> \<open>\<^verbatim>\<open>pclose(pip)\<close>\<close>
  | Spawn string      \<comment> \<open>\<^verbatim>\<open>std::thread(key_detect, id, audio, mixer)\<close>\<close>
  | Socket            \<comment> \<open>\<^verbatim>\<open>socket(AF_NETLINK, ...)\<close>\<close>
  | Bind              \<comment> \<open>\<^verbatim>\<open>bind(sock_fd, ...)\<close>\<close>
  | Select            \<comment> \<open>\<^verbatim>\<open>select(sock_fd + 1, ...)\<close>\<close>
  | Recv              \<comment> \<open>\<^verbatim>\<open>recv(sock_fd, buf, 512, 0)\<close>\<close>
  | Del string        \<comment> \<open>\<^verbatim>\<open>del_event_id(id)\<close>\<close>
  | Clear_all         \<comment> \<open>\<^verbatim>\<open>clear_all_key_detect_threads()\<close>\<close>
  | Close int         \<comment> \<open>\<^verbatim>\<open>close(sock_fd)\<close>\<close>
  | Join string       \<comment> \<open>\<^verbatim>\<open>th.join()\<close> on the thread spawned for the identifier\<close>

text \<open>
  The state: \<open>all_threads\<close> is the vector of that name (line 38), each thread written
  as the identifier it was spawned with; \<open>key_detect_threads\<close> is the registry of live
  monitoring tasks, which lives in \<^verbatim>\<open>KeyDetect.cc\<close>; it is a list, so that two tasks
  for one device are two entries.
\<close>

record state =
  key_detect_threads :: "string list"
  all_threads :: "string list"
  trace :: "event list"

definition init_state :: state where
  "init_state = \<lparr>key_detect_threads = [], all_threads = [], trace = []\<rparr>"

definition log :: "event \<Rightarrow> state \<Rightarrow> state" where
  "log e st = st\<lparr>trace := trace st @ [e]\<rparr>"

text \<open>
  Modelled from the spec: \<^verbatim>\<open>event_id_exists\<close> is declared in \<^verbatim>\<open>KeyDetect.hpp\<close>;
  its definition (\<^verbatim>\<open>KeyDetect.cc\<close>) is missing. Section 4.3: \<open>exists(id)\<close> is true
  iff a live task is registered for \<open>id\<close>.
\<close>

definition event_id_exists :: "string \<Rightarrow> state \<Rightarrow> bool" where
  "event_id_exists event_id st \<longleftrightarrow> event_id \<in> set (key_detect_threads st)"

text \<open>
  Modelled from the spec: the definition of \<^verbatim>\<open>del_event_id\<close> (\<^verbatim>\<open>KeyDetect.cc\<close>) is
  missing. Section 4.3: \<open>stop(id)\<close> signals the task registered for \<open>id\<close> to cancel
  and removes it from the live set.
\<close>

definition del_event_id :: "string \<Rightarrow> state \<Rightarrow> state" where
  "del_event_id event_id st =
     log (Del event_id)
       (st\<lparr>key_detect_threads := removeAll event_id (key_detect_threads st)\<rparr>)"

text \<open>
  Modelled from the spec: the definition of \<^verbatim>\<open>clear_all_key_detect_threads\<close>
  (\<^verbatim>\<open>KeyDetect.cc\<close>) is missing. Section 4.3: the first half of \<open>drain\<close> signals
  cancellation to every registered task; none is live afterwards.
\<close>

definition clear_all_key_detect_threads :: "state \<Rightarrow> state" where
  "clear_all_key_detect_threads st = log Clear_all (st\<lparr>key_detect_threads := []\<rparr>)"

text \<open>
  Modelled from the spec: the definition of \<^verbatim>\<open>key_detect\<close>, the body of a task
  (\<^verbatim>\<open>KeyDetect.cc\<close>), is missing. Section 4.3: a task that is spawned is bound to
  its identifier and recorded in the registry. The spawning itself is
  \<^verbatim>\<open>all_threads.push_back(std::thread(key_detect, id, audio, mixer))\<close>, lines 128
  and 181.
\<close>

definition spawn_key_detect :: "string \<Rightarrow> state \<Rightarrow> state" where
  "spawn_key_detect event_id st =
     log (Spawn event_id)
       (st\<lparr>key_detect_threads := key_detect_threads st @ [event_id],
           all_threads := all_threads st @ [event_id]\<rparr>)"

text \<open>
  A stream opened by \<^verbatim>\<open>popen\<close>: what is still to be read and the end-of-file
  indicator. The environment's \<open>popen\<close> maps a command to what the command will write,
  or to \<^const>\<open>None\<close> when \<^verbatim>\<open>popen\<close> returns the null handle.
\<close>

type_synonym stream = "string \<times> bool"

text \<open>
  The reading loop of \<^verbatim>\<open>fgets\<close> with room for \<open>k\<close> more characters: it stops when
  the room is used up, after a newline, or at the end of the data, and only in the last
  case sets the end-of-file indicator. The result is the characters stored, the data
  left and whether the end was hit.
\<close>

fun fgets_chars :: "nat \<Rightarrow> string \<Rightarrow> string \<times> string \<times> bool" where
  "fgets_chars 0 s = ([], s, False)"
| "fgets_chars (Suc k) [] = ([], [], True)"
| "fgets_chars (Suc k) (c # cs) =
     (if c = CHR 0x0A then ([c], cs, False)
      else (case fgets_chars k cs of (l, r, e) \<Rightarrow> (c # l, r, e)))"

text \<open>
  \<^verbatim>\<open>fgets(buf, n, pip)\<close> for \<open>n\<close> of at least 2: at most \<open>n - 1\<close> characters, and
  the null pointer (\<^const>\<open>None\<close>) when the end is hit before any character is read.
\<close>

definition fgets :: "nat \<Rightarrow> stream \<Rightarrow> string option \<times> stream" where
  "fgets n pip =
     (case fgets_chars (n - 1) (fst pip) of
        (l, r, e) \<Rightarrow> (if l = [] then None else Some l, (r, snd pip \<or> e)))"

definition cmd1 :: string where
  "cmd1 = ''grep -E 'Handlers|EV=' /proc/bus/input/devices | grep -B1 'EV=1[2]001' | grep -Eo 'event[0-9]+'' @ [CHR 0x27]"

definition cmd2 :: string where
  "cmd2 = ''grep -B2 'EV=1[2]001[3Ff]' /proc/bus/input/devices | grep event''"

subsection \<open>The device classifier\<close>

text \<open>\<^verbatim>\<open>is_keyboard\<close>, lines 46 to 63.\<close>

definition is_keyboard :: "(string \<Rightarrow> string option) \<Rightarrow> string \<Rightarrow> state \<Rightarrow> bool \<times> state" where
  "is_keyboard popen event_id st =
     (if event_id = [] then (False, st)
      else
        (let st1 = log (Popen (cmd2 @ event_id)) st
         in case popen (cmd2 @ event_id) of
              None \<Rightarrow> (False, log (Cout ''error occured'') st1)
            | Some out \<Rightarrow>
                (case fgets 8 (out, False) of
                   (tmp, pip) \<Rightarrow> (tmp \<noteq> None, log Pclose st1))))"

subsection \<open>The startup enumerator\<close>

text \<open>
  The loop of \<^verbatim>\<open>start_exists_device\<close>, lines 122 to 130, on an open stream. The
  buffer is cleared before each read, so the string made from it is the line read, up
  to a zero byte if the line has one.
\<close>

function enum_loop :: "stream \<Rightarrow> state \<Rightarrow> error + state" where
  "enum_loop pip st =
     (if snd pip then Inr st
      else
        (case fgets 64 pip of
           (None, pip') \<Rightarrow> enum_loop pip' st
         | (Some buf, pip') \<Rightarrow>
             (case get_event_id (c_str buf) of
                Inl e \<Rightarrow> Inl e
              | Inr str_event_id \<Rightarrow>
                  (case erase_last str_event_id of
                     Inl e \<Rightarrow> Inl e
                   | Inr event_id \<Rightarrow> enum_loop pip' (spawn_key_detect event_id st)))))"
  by pat_completeness auto

termination enum_loop
proof (relation "measure (\<lambda>(pip, st). length (fst pip) + (if snd pip then 0 else 1))")
  have len: "length l + length r = length s" if "fgets_chars k s = (l, r, e)" for k s l r e
    using that
    by (induction k s arbitrary: l r e rule: fgets_chars.induct)
       (auto split: if_splits prod.splits)
  have empty: "s = [] \<and> r = [] \<and> e" if "fgets_chars (Suc k) s = ([], r, e)" for k s r e
    using that by (cases s) (auto split: if_splits prod.splits)
  show "wf (measure (\<lambda>(pip, st). length (fst pip) + (if snd pip then 0 else 1)))"
    by simp
  show "((pip', st), (pip, st))
      \<in> measure (\<lambda>(pip, st). length (fst pip) + (if snd pip then 0 else 1))"
    if "\<not> snd pip" and "(x, pip') = fgets 64 pip" and "x = None"
    for pip :: stream and st :: state and x pip'
  proof -
    obtain l r e where f: "fgets_chars (Suc 62) (fst pip) = (l, r, e)"
      by (cases "fgets_chars (Suc 62) (fst pip)") auto
    with that have "l = []" and "pip' = (r, snd pip \<or> e)"
      by (auto simp: fgets_def split: if_splits)
    with empty [of 62 "fst pip" r e] f that(1) show ?thesis
      by simp
  qed
  show "((pip', spawn_key_detect event_id st), (pip, st))
      \<in> measure (\<lambda>(pip, st). length (fst pip) + (if snd pip then 0 else 1))"
    if "\<not> snd pip" and "(x, pip') = fgets 64 pip" and "x = Some buf"
    for pip :: stream and st :: state and x pip' buf and event_id :: string
  proof -
    obtain l r e where f: "fgets_chars (Suc 62) (fst pip) = (l, r, e)"
      by (cases "fgets_chars (Suc 62) (fst pip)") auto
    with that have "l \<noteq> []" and "fst pip' = r"
      by (auto simp: fgets_def split: if_splits)
    with len [OF f] that(1) show ?thesis
      by (cases l) auto
  qed
qed

declare enum_loop.simps [simp del]

text \<open>
  \<^verbatim>\<open>start_exists_device\<close>, lines 113 to 133. The branch for a null handle writes a
  line and does not return, so the loop's \<^verbatim>\<open>feof(pip)\<close> is reached with the handle
  it was given.
\<close>

definition start_exists_device :: "(string \<Rightarrow> string option) \<Rightarrow> state \<Rightarrow> error + state" where
  "start_exists_device popen st =
     (let pip = popen cmd1;
          st1 = log (Popen cmd1) st;
          st2 = (if pip = None then log (Cout ''error occured'') st1 else st1)
      in case pip of
           None \<Rightarrow> Inl Null_stream
         | Some out \<Rightarrow>
             (case enum_loop (out, False) st2 of
                Inl e \<Rightarrow> Inl e
              | Inr st3 \<Rightarrow> Inr (log Pclose st3)))"

subsection \<open>The hotplug listener\<close>

text \<open>
  \<^verbatim>\<open>init_socket\<close>, lines 66 to 89, given what \<^verbatim>\<open>socket\<close> and \<^verbatim>\<open>bind\<close> return.
\<close>

definition init_socket :: "int \<Rightarrow> int \<Rightarrow> state \<Rightarrow> int \<times> state" where
  "init_socket socket_ret bind_ret st =
     (let st1 = log Socket st
      in if socket_ret < 0 then (- 1, log (Cout ''init socket error'') st1)
         else
           (let st2 = log Bind st1
            in if bind_ret < 0
               then (- 1, log (Close socket_ret)
                            (log (Cout ''init socket bind error occured'') st2))
               else (socket_ret, st2)))"

text \<open>
  The body of the \<^verbatim>\<open>if (recv(...) > 0)\<close>, lines 165 to 198, on the notification as
  the string that \<^verbatim>\<open>get_event_id\<close> and \<^verbatim>\<open>device_state\<close> receive.
\<close>

definition handle_notification ::
    "(string \<Rightarrow> string option) \<Rightarrow> string \<Rightarrow> state \<Rightarrow> error + state" where
  "handle_notification popen buf st =
     (case get_event_id buf of
        Inl e \<Rightarrow> Inl e
      | Inr str_event_id \<Rightarrow>
          (let state = device_state buf
           in if state = 1 then
                (if event_id_exists str_event_id st then Inr st
                 else
                   (case is_keyboard popen str_event_id st of
                      (kb, st1) \<Rightarrow>
                        if kb then Inr (spawn_key_detect str_event_id st1) else Inr st1))
              else if state = - 1 then
                (if event_id_exists str_event_id st then Inr (del_event_id str_event_id st)
                 else Inr st)
              else Inr st))"

text \<open>
  What one turn of the loop meets: \<^verbatim>\<open>select\<close> fails, \<^verbatim>\<open>select\<close> reports nothing
  to read, \<^verbatim>\<open>recv\<close> returns an error, or \<^verbatim>\<open>recv\<close> delivers a datagram (none of it
  when the datagram is empty, its first 512 bytes when it is longer).
\<close>

datatype poll = Select_failed | Timed_out | Recv_failed | Received string

definition UEVENT_BUFFER_SIZE :: nat where
  "UEVENT_BUFFER_SIZE = 512"

text \<open>
  One turn of the loop, lines 154 to 199. The buffer is cleared before \<^verbatim>\<open>recv\<close>; a
  datagram that fills it and has no zero byte leaves a buffer that is no C string.
\<close>

definition listen_step :: "(string \<Rightarrow> string option) \<Rightarrow> poll \<Rightarrow> state \<Rightarrow> error + state" where
  "listen_step popen p st =
     (let st1 = log Select st
      in case p of
           Select_failed \<Rightarrow> Inr st1
         | Timed_out \<Rightarrow> Inr st1
         | Recv_failed \<Rightarrow> Inr (log Recv st1)
         | Received datagram \<Rightarrow>
             (let st2 = log Recv st1; buf = take UEVENT_BUFFER_SIZE datagram
              in if buf = [] then Inr st2
                 else if length buf = UEVENT_BUFFER_SIZE \<and> CHR 0x00 \<notin> set buf
                 then Inl Unterminated
                 else handle_notification popen (c_str buf) st2))"

text \<open>
  The loop \<^verbatim>\<open>while (detect)\<close>, lines 153 to 200. The flag is cleared by another
  thread (\<^verbatim>\<open>stop_detect\<close>); a run that observes the stop is given by the turns that
  the loop takes before it reads the flag as false.
\<close>

fun listen :: "(string \<Rightarrow> string option) \<Rightarrow> poll list \<Rightarrow> state \<Rightarrow> error + state" where
  "listen popen [] st = Inr st"
| "listen popen (p # ps) st =
     (case listen_step popen p st of
        Inl e \<Rightarrow> Inl e
      | Inr st1 \<Rightarrow> listen popen ps st1)"

text \<open>The loop \<^verbatim>\<open>for (auto &th: all_threads) th.join()\<close>, lines 206 to 208.\<close>

definition join_all :: "state \<Rightarrow> state" where
  "join_all st = st\<lparr>trace := trace st @ map Join (all_threads st)\<rparr>"

text \<open>What follows the loop, lines 202 to 208.\<close>

definition shutdown :: "int \<Rightarrow> state \<Rightarrow> state" where
  "shutdown sock_fd st =
     (let st1 = clear_all_key_detect_threads st;
          st2 = (if 0 < sock_fd then log (Close sock_fd) st1 else st1)
      in join_all st2)"

text \<open>
  The environment of a run: what \<^verbatim>\<open>popen\<close> gives for a command, what \<^verbatim>\<open>socket\<close>
  and \<^verbatim>\<open>bind\<close> return, and the turns of the loop before the stop is observed.
\<close>

record env =
  popen_of :: "string \<Rightarrow> string option"
  socket_ret :: int
  bind_ret :: int
  polls :: "poll list"

text \<open>\<^verbatim>\<open>device_detect\<close> from the call of \<^verbatim>\<open>init_socket\<close> on, lines 139 to 208.\<close>

definition hotplug_listener :: "env \<Rightarrow> state \<Rightarrow> error + state" where
  "hotplug_listener e st =
     (case init_socket (socket_ret e) (bind_ret e) st of
        (sock_fd, st1) \<Rightarrow>
          if sock_fd < 0 then Inr (log (Cout ''init error'') st1)
          else
            (case listen (popen_of e) (polls e) st1 of
               Inl err \<Rightarrow> Inl err
             | Inr st2 \<Rightarrow> Inr (shutdown sock_fd st2)))"

text \<open>\<^verbatim>\<open>device_detect\<close>, lines 136 to 209.\<close>

definition device_detect :: "env \<Rightarrow> state \<Rightarrow> error + state" where
  "device_detect e st =
     (case start_exists_device (popen_of e) st of
        Inl err \<Rightarrow> Inl err
      | Inr st1 \<Rightarrow> hotplug_listener e st1)"

subsection \<open>Notions used to state the properties\<close>

text \<open>
  What the enumeration command prints for devices with the event numbers \<open>ids\<close>: its
  last stage is \<^verbatim>\<open>grep -Eo 'event[0-9]+'\<close>, which prints each match on a line of
  its own.
\<close>

definition event_line :: "string \<Rightarrow> string" where
  "event_line event_id = ''event'' @ event_id @ [CHR 0x0A]"

definition enum_output :: "string list \<Rightarrow> string" where
  "enum_output ids = concat (map event_line ids)"

definition is_digit :: "char \<Rightarrow> bool" where
  "is_digit c \<longleftrightarrow> c \<in> set ''0123456789''"

text \<open>
  An event number as the kernel writes it: digits, at least one, and few enough for the
  line to fit the 64 bytes of the buffer (the numbers of the kernel have at most ten).
\<close>

definition event_number :: "string \<Rightarrow> bool" where
  "event_number event_id \<longleftrightarrow>
     event_id \<noteq> [] \<and> list_all is_digit event_id \<and> length event_id \<le> 57"

text \<open>The number of live tasks registered for an identifier.\<close>

definition live_tasks :: "string \<Rightarrow> state \<Rightarrow> nat" where
  "live_tasks event_id st = count_list (key_detect_threads st) event_id"

text \<open>
  Two environments for examples: one in which every \<^verbatim>\<open>popen\<close> returns the null
  handle, and one in which the enumeration command prints \<open>out\<close> and the probe of every
  device prints nothing.
\<close>

definition popen_fails :: "string \<Rightarrow> string option" where
  "popen_fails cmd = None"

definition enum_only :: "string \<Rightarrow> string \<Rightarrow> string option" where
  "enum_only out cmd = (if cmd = cmd1 then Some out else Some [])"

text \<open>The events of the shutdown: cancelling all tasks, closing a socket, joining.\<close>

fun shutdown_event :: "event \<Rightarrow> bool" where
  "shutdown_event Clear_all = True"
| "shutdown_event (Close fd) = True"
| "shutdown_event (Join event_id) = True"
| "shutdown_event e = False"

text \<open>\<open>precedes a b tr\<close>: \<open>a\<close> occurs in the trace and \<open>b\<close> occurs after its first occurrence.\<close>

definition precedes :: "event \<Rightarrow> event \<Rightarrow> event list \<Rightarrow> bool" where
  "precedes a b tr \<longleftrightarrow> b \<in> set (drop 1 (dropWhile (\<lambda>e. e \<noteq> a) tr))"

text \<open>The trace of a whole run, if the run comes to its end.\<close>

definition run_trace :: "env \<Rightarrow> event list option" where
  "run_trace e =
     (case device_detect e init_state of Inl err \<Rightarrow> None | Inr st \<Rightarrow> Some (trace st))"

subsection \<open>What the search finds\<close>

lemma find_sub_occurrence:
  "find_sub pat s = Some i \<Longrightarrow> take (length pat) (drop i s) = pat \<and> i + length pat \<le> length s"
proof (induction s arbitrary: i)
  case Nil
  then show ?case by (auto split: if_splits)
next
  case (Cons c cs)
  show ?case
  proof (cases "take (length pat) (c # cs) = pat")
    case True
    with Cons.prems have "i = 0" by simp
    moreover have "length pat \<le> length (c # cs)"
      using arg_cong [OF True, of length] by simp
    ultimately show ?thesis using True by simp
  next
    case False
    with Cons.prems obtain j where "find_sub pat cs = Some j" and "i = Suc j"
      by auto
    with Cons.IH [of j] show ?thesis by simp
  qed
qed

lemma find_sub_least:
  "find_sub pat s = Some i \<Longrightarrow> j < i \<Longrightarrow> take (length pat) (drop j s) \<noteq> pat"
proof (induction s arbitrary: i j)
  case Nil
  then show ?case by (auto split: if_splits)
next
  case (Cons c cs)
  from Cons.prems have ne: "take (length pat) (c # cs) \<noteq> pat"
    by (auto split: if_splits)
  with Cons.prems obtain k where k: "find_sub pat cs = Some k" "i = Suc k"
    by auto
  show ?case
  proof (cases j)
    case 0
    with ne show ?thesis by simp
  next
    case (Suc j')
    with Cons.prems k have "j' < k" by simp
    from Cons.IH [OF k(1) this] Suc show ?thesis by simp
  qed
qed

lemma find_sub_prefix: "find_sub pat s = Some 0 \<longleftrightarrow> prefix pat s"
proof (cases s)
  case Nil
  then show ?thesis by auto
next
  case (Cons c cs)
  have "take (length pat) s = pat \<longleftrightarrow> prefix pat s"
    by (metis append_eq_conv_conj prefix_def take_is_prefix)
  with Cons show ?thesis by auto
qed


lemma find_str_prefix: "find_str s pat 0 = Some 0 \<longleftrightarrow> prefix pat s"
  by (simp add: find_str_def find_sub_prefix)


lemma find_str_occurrence:
  "find_str s pat pos = Some i \<Longrightarrow>
     pos \<le> i \<and> i + length pat \<le> length s \<and> take (length pat) (drop i s) = pat"
  by (auto simp: find_str_def add.commute split: if_splits dest!: find_sub_occurrence)

lemma find_slash_after_token:
  assumes "find_str buf ''event'' 0 = Some pos" and "find_str buf ''/'' pos = Some p"
  shows "pos + 5 \<le> p"
proof -
  from assms(1) have tok: "take 5 (drop pos buf) = ''event''" and "pos + 5 \<le> length buf"
    using find_str_occurrence [of buf "''event''" 0 pos] by (simp_all add: eval_nat_numeral)
  from assms(2) have "pos \<le> p" and "p + 1 \<le> length buf" and sl: "take 1 (drop p buf) = ''/''"
    using find_str_occurrence [of buf "''/''" pos p] by simp_all
  show ?thesis
  proof (rule ccontr)
    assume "\<not> pos + 5 \<le> p"
    with \<open>pos \<le> p\<close> obtain k where k: "p = pos + k" "k < 5"
      by (metis add_diff_inverse_nat not_le less_diff_conv2 add.commute not_less)
    from sl \<open>p + 1 \<le> length buf\<close> have "buf ! p = CHR ''/''"
      by (metis One_nat_def Suc_eq_plus1 Suc_le_lessD hd_drop_conv_nth list.sel(1) take_Suc take_eq_Nil2 zero_neq_one hd_take)
    moreover from tok k \<open>pos + 5 \<le> length buf\<close> have "buf ! p = ''event'' ! k"
      by (metis add.commute nth_drop nth_take le_add1 le_trans)
    ultimately have "''event'' ! k = CHR ''/''" by simp
    with k(2) show False
      by (auto simp: less_Suc_eq numeral_eq_Suc)
  qed
qed

lemma get_event_id_total: "\<exists>r. get_event_id buf = Inr r"
  by (auto simp: get_event_id_def substr_def Let_def split: option.splits
           dest!: find_str_occurrence)

subsection \<open>Extraction and classification\<close>

text \<open>
  What \<^verbatim>\<open>get_event_id\<close> returns where the token is found, first at \<open>pos\<close>: all that
  follows the token when no separator comes after it, and otherwise
  \<open>pos_stop - pos - 1\<close> characters from the end of the token on, if the buffer has
  as many. The characters between the token and the separator are only
  \<open>pos_stop - pos - 5\<close>, so the result never is the text between the two.
\<close>

lemma get_event_id_no_separator:
  assumes "find_str buf ''event'' 0 = Some pos" and "find_str buf ''/'' pos = None"
  shows "get_event_id buf = Inr (drop (pos + 5) buf)"
proof -
  from assms(1) have "pos + 5 \<le> length buf"
    using find_str_occurrence [of buf "''event''" 0 pos] by (simp add: eval_nat_numeral)
  with assms show ?thesis
    by (simp add: get_event_id_def substr_def)
qed

lemma get_event_id_separator:
  assumes "find_str buf ''event'' 0 = Some pos" and "find_str buf ''/'' pos = Some pos_stop"
  shows "get_event_id buf = Inr (take (pos_stop - pos - 1) (drop (pos + 5) buf))"
    and "get_event_id buf \<noteq> Inr (take (pos_stop - (pos + 5)) (drop (pos + 5) buf))"
proof -
  from assms(1) have len: "pos + 5 \<le> length buf"
    using find_str_occurrence [of buf "''event''" 0 pos] by (simp add: eval_nat_numeral)
  from assms(2) have stop: "pos_stop < length buf"
    using find_str_occurrence [of buf "''/''" pos pos_stop] by simp
  have after: "pos + 5 \<le> pos_stop"
    using find_slash_after_token [OF assms] .
  from assms len show res: "get_event_id buf = Inr (take (pos_stop - pos - 1) (drop (pos + 5) buf))"
    by (simp add: get_event_id_def substr_def)
  have "length (take (pos_stop - pos - 1) (drop (pos + 5) buf))
          \<noteq> length (take (pos_stop - (pos + 5)) (drop (pos + 5) buf))"
    using stop after by simp
  then have "take (pos_stop - pos - 1) (drop (pos + 5) buf)
               \<noteq> take (pos_stop - (pos + 5)) (drop (pos + 5) buf)"
    by metis
  with res show "get_event_id buf \<noteq> Inr (take (pos_stop - (pos + 5)) (drop (pos + 5) buf))"
    by simp
qed

text \<open>
  C1 does not hold of the code. The count handed to \<^verbatim>\<open>substr\<close> at line 101 is
  \<^verbatim>\<open>pos_stop - pos - 1\<close> where the text between the token and the separator has
  \<^verbatim>\<open>pos_stop - pos - 5\<close> characters, so the identifier runs up to four characters
  beyond the separator. For \<open>add@/devices/.../input/input9/event3/uevent\<close> it is
  \<open>3/uev\<close> and not \<open>3\<close>; for the input of the specification, where \<open>Unsigned3\<close> stands
  between the token and the separator, it is \<open>Unsigned3/uev\<close>.
\<close>

theorem get_event_id_past_separator:
  "find_str ''add@/devices/.../input/input9/event3/uevent'' ''event'' 0 = Some 30 \<and>
   find_str ''add@/devices/.../input/input9/event3/uevent'' ''/'' 30 = Some 36 \<and>
   take (36 - (30 + 5)) (drop (30 + 5) ''add@/devices/.../input/input9/event3/uevent'') = ''3'' \<and>
   get_event_id ''add@/devices/.../input/input9/event3/uevent'' = Inr ''3/uev'' \<and>
   find_str ''add@/devices/.../input/input9/eventUnsigned3/uevent'' ''event'' 0 = Some 30 \<and>
   find_str ''add@/devices/.../input/input9/eventUnsigned3/uevent'' ''/'' 30 = Some 44 \<and>
   take (44 - (30 + 5)) (drop (30 + 5) ''add@/devices/.../input/input9/eventUnsigned3/uevent'')
     = ''Unsigned3'' \<and>
   get_event_id ''add@/devices/.../input/input9/eventUnsigned3/uevent'' = Inr ''Unsigned3/uev''"
  by (simp add: get_event_id_def find_str_def substr_def)

lemma add_not_remove: "prefix ''add'' buf \<Longrightarrow> \<not> prefix ''remove'' buf"
  by (cases buf) auto

lemma device_state_cases:
  "device_state buf =
     (if prefix ''add'' buf then 1 else if prefix ''remove'' buf then - 1 else 0)"
  by (simp add: device_state_def find_str_prefix)

text \<open>
  C8. \<^verbatim>\<open>device_state\<close> answers 1 (added) exactly for the buffers that start with
  \<open>add\<close>, -1 (removed) exactly for those that start with \<open>remove\<close> and 0 (other)
  for all the rest, and a notification classified 0 leaves the state as it was.
\<close>

theorem device_state_classification:
  "(device_state buf = 1 \<longleftrightarrow> prefix ''add'' buf) \<and>
   (device_state buf = - 1 \<longleftrightarrow> prefix ''remove'' buf) \<and>
   (device_state buf = 0 \<longleftrightarrow> \<not> prefix ''add'' buf \<and> \<not> prefix ''remove'' buf) \<and>
   (device_state buf = 0 \<longrightarrow> handle_notification popen buf st = Inr st)"
proof -
  obtain r where "get_event_id buf = Inr r"
    using get_event_id_total by blast
  then have "device_state buf = 0 \<longrightarrow> handle_notification popen buf st = Inr st"
    by (simp add: handle_notification_def)
  then show ?thesis
    using add_not_remove [of buf] by (simp add: device_state_cases)
qed

theorem device_state_classification_witness:
  "device_state ''change@/devices/input9/event3'' = 0 \<and>
   handle_notification (\<lambda>c. None) ''change@/devices/input9/event3'' init_state = Inr init_state"
proof -
  have "device_state ''change@/devices/input9/event3'' = 0"
    by (simp add: device_state_cases)
  with device_state_classification [of "''change@/devices/input9/event3''" "\<lambda>c. None" init_state]
  show ?thesis by simp
qed


text \<open>
  C6. A removal notification for an identifier under which no task is registered is
  handled without an error and leaves the state, and so the registry, unchanged.
\<close>

theorem stop_unregistered_noop:
  assumes "prefix ''remove'' buf"
      and "get_event_id buf = Inr event_id"
      and "\<not> event_id_exists event_id st"
  shows "handle_notification popen buf st = Inr st"
  using assms add_not_remove [of buf]
  by (auto simp: handle_notification_def device_state_cases)

theorem stop_unregistered_noop_witness:
  "prefix ''remove'' ''remove@/devices/input9/event9'' \<and>
   get_event_id ''remove@/devices/input9/event9'' = Inr ''9'' \<and>
   \<not> event_id_exists ''9'' (init_state\<lparr>key_detect_threads := [''3'']\<rparr>) \<and>
   handle_notification (\<lambda>c. None) ''remove@/devices/input9/event9''
       (init_state\<lparr>key_detect_threads := [''3'']\<rparr>)
     = Inr (init_state\<lparr>key_detect_threads := [''3'']\<rparr>)"
proof -
  have a: "prefix ''remove'' ''remove@/devices/input9/event9''"
    by simp
  have b: "get_event_id ''remove@/devices/input9/event9'' = Inr ''9''"
    by (simp add: get_event_id_def find_str_def substr_def)
  have c: "\<not> event_id_exists ''9'' (init_state\<lparr>key_detect_threads := [''3'']\<rparr>)"
    by (simp add: event_id_exists_def)
  from stop_unregistered_noop [OF a b c] a b c show ?thesis
    by simp
qed

text \<open>
  C5. Where the probe cannot be opened, or nothing can be read from it, the classifier
  returns false; its result is a boolean, so no error reaches the caller.
\<close>

theorem is_keyboard_io_failure:
  assumes "popen (cmd2 @ event_id) = None \<or>
           (\<exists>out. popen (cmd2 @ event_id) = Some out \<and> fst (fgets 8 (out, False)) = None)"
  shows "fst (is_keyboard popen event_id st) = False"
  using assms
  by (auto simp: is_keyboard_def Let_def split: prod.splits option.splits)

theorem is_keyboard_io_failure_witness:
  "fst (is_keyboard (\<lambda>c. None) ''7'' init_state) = False \<and>
   fst (fgets 8 ([], False)) = None \<and>
   fst (is_keyboard (\<lambda>c. Some []) ''7'' init_state) = False"
proof -
  have a: "(\<lambda>c. None) (cmd2 @ ''7'') = None \<or>
           (\<exists>out. (\<lambda>c. None) (cmd2 @ ''7'') = Some out \<and> fst (fgets 8 (out, False)) = None)"
    by simp
  have e: "fst (fgets 8 ([], False)) = None"
    by (simp add: fgets_def eval_nat_numeral)
  then have b: "(\<lambda>c. Some []) (cmd2 @ ''7'') = None \<or>
           (\<exists>out. (\<lambda>c. Some []) (cmd2 @ ''7'') = Some out \<and> fst (fgets 8 (out, False)) = None)"
    by simp
  from is_keyboard_io_failure [of "\<lambda>c. None" "''7''" init_state, OF a]
       is_keyboard_io_failure [of "\<lambda>c. Some []" "''7''" init_state, OF b] e
  show ?thesis by simp
qed

subsection \<open>The startup enumerator on the output of the enumeration command\<close>

lemma fgets_chars_line:
  "CHR 0x0A \<notin> set l \<Longrightarrow> length l < k \<Longrightarrow>
     fgets_chars k (l @ CHR 0x0A # rest) = (l @ [CHR 0x0A], rest, False)"
proof (induction l arbitrary: k)
  case Nil
  then show ?case by (cases k) auto
next
  case (Cons c l)
  then obtain k' where "k = Suc k'" by (cases k) auto
  with Cons show ?case by auto
qed

lemma not_digit:
  "\<not> is_digit (CHR 0x0A)" "\<not> is_digit (CHR 0x00)" "\<not> is_digit (CHR ''/'')"
  by (simp_all add: is_digit_def)

lemma digit_chars:
  assumes "list_all is_digit event_id"
  shows "CHR 0x0A \<notin> set event_id" and "CHR 0x00 \<notin> set event_id"
    and "CHR ''/'' \<notin> set event_id"
  using assms not_digit by (auto simp: list_all_iff)

lemma fgets_event_line:
  assumes "event_number event_id"
  shows "fgets 64 (event_line event_id @ rest, eof) = (Some (event_line event_id), (rest, eof))"
proof -
  from assms have "CHR 0x0A \<notin> set (''event'' @ event_id)"
    and "length (''event'' @ event_id) < 63"
    using digit_chars(1) [of event_id] by (auto simp: event_number_def)
  from fgets_chars_line [OF this, of rest] show ?thesis
    by (simp add: fgets_def event_line_def)
qed

lemma c_str_event_line:
  "list_all is_digit event_id \<Longrightarrow> c_str (event_line event_id) = event_line event_id"
  using digit_chars(2) [of event_id]
  by (auto simp: c_str_def event_line_def takeWhile_eq_all_conv)

lemma find_sub_absent: "c \<notin> set s \<Longrightarrow> find_sub [c] s = None"
  by (induction s) auto

lemma get_event_id_event_line:
  assumes "list_all is_digit event_id"
  shows "get_event_id (event_line event_id) = Inr (event_id @ [CHR 0x0A])"
proof -
  have tok: "find_str (event_line event_id) ''event'' 0 = Some 0"
    by (simp add: find_str_def event_line_def)
  have "CHR ''/'' \<notin> set (event_line event_id)"
    using digit_chars(3) [OF assms] by (simp add: event_line_def)
  then have sep: "find_str (event_line event_id) ''/'' 0 = None"
    by (simp add: find_str_def find_sub_absent)
  have "substr (event_line event_id) 5 (length (event_line event_id) - 1)
          = Inr (event_id @ [CHR 0x0A])"
    by (simp add: substr_def event_line_def)
  then show ?thesis
    by (simp add: get_event_id_def tok sep)
qed

lemma erase_last_snoc: "erase_last (s @ [c]) = Inr s"
  by (simp add: erase_last_def)

lemma enum_loop_event_line:
  assumes "event_number event_id"
  shows "enum_loop (event_line event_id @ rest, False) st =
         enum_loop (rest, False) (spawn_key_detect event_id st)"
proof -
  from assms have d: "list_all is_digit event_id"
    by (simp add: event_number_def)
  show ?thesis
    by (subst enum_loop.simps)
       (simp add: fgets_event_line [OF assms] c_str_event_line [OF d]
                  get_event_id_event_line [OF d] erase_last_snoc)
qed

lemma enum_loop_end: "enum_loop ([], False) st = Inr st"
proof -
  have "fgets 64 ([], False) = (None, ([], True))"
    by (simp add: fgets_def eval_nat_numeral)
  then have "enum_loop ([], False) st = enum_loop ([], True) st"
    by (subst enum_loop.simps) simp
  also have "\<dots> = Inr st"
    by (subst enum_loop.simps) simp
  finally show ?thesis .
qed

lemma enum_loop_enum_output:
  "list_all event_number ids \<Longrightarrow>
     enum_loop (enum_output ids, False) st = Inr (fold spawn_key_detect ids st)"
proof (induction ids arbitrary: st)
  case Nil
  then show ?case by (simp add: enum_output_def enum_loop_end)
next
  case (Cons i ids)
  then have "event_number i" and "list_all event_number ids"
    by simp_all
  with Cons.IH [of "spawn_key_detect i st"] enum_loop_event_line [of i "enum_output ids" st]
  show ?case by (simp add: enum_output_def)
qed

lemma fold_spawn:
  "fold spawn_key_detect ids st =
     \<lparr>key_detect_threads = key_detect_threads st @ ids,
      all_threads = all_threads st @ ids,
      trace = trace st @ map Spawn ids\<rparr>"
  by (induction ids arbitrary: st) (simp_all add: spawn_key_detect_def log_def)

lemma start_exists_device_enumeration:
  assumes "popen cmd1 = Some (enum_output ids)" and "list_all event_number ids"
  shows "start_exists_device popen st =
           Inr \<lparr>key_detect_threads = key_detect_threads st @ ids,
                all_threads = all_threads st @ ids,
                trace = trace st @ [Popen cmd1] @ map Spawn ids @ [Pclose]\<rparr>"
  using assms
  by (simp add: start_exists_device_def enum_loop_enum_output fold_spawn log_def)

text \<open>
  C4. Where the enumeration command lists the keyboards present, one line for each, the
  startup enumerator completes and every one of them then has a live monitoring task
  and a thread. It has run once and to its end before the socket is opened: its trace
  is one \<^verbatim>\<open>popen\<close>, one spawn for each device and \<^verbatim>\<open>pclose\<close>, without any
  \<^verbatim>\<open>select\<close> or \<^verbatim>\<open>recv\<close>, and the rest of \<^verbatim>\<open>device_detect\<close> is the listener
  started from that state. Three keyboards give three tasks.
\<close>

theorem startup_enumeration_covers:
  assumes "list_all event_number ids" and "popen_of e cmd1 = Some (enum_output ids)"
  shows "\<exists>st. start_exists_device (popen_of e) init_state = Inr st \<and>
              key_detect_threads st = ids \<and> all_threads st = ids \<and>
              trace st = [Popen cmd1] @ map Spawn ids @ [Pclose] \<and>
              device_detect e init_state = hotplug_listener e st"
  using start_exists_device_enumeration [of "popen_of e" ids init_state] assms
  by (simp add: device_detect_def init_state_def)

theorem startup_enumeration_covers_witness:
  "list_all event_number [''3'', ''4'', ''17''] \<and>
   enum_output [''3'', ''4'', ''17''] = ''event3\<newline>event4\<newline>event17\<newline>'' \<and>
   start_exists_device (\<lambda>c. Some ''event3\<newline>event4\<newline>event17\<newline>'') init_state =
     Inr \<lparr>key_detect_threads = [''3'', ''4'', ''17''],
          all_threads = [''3'', ''4'', ''17''],
          trace = [Popen cmd1, Spawn ''3'', Spawn ''4'', Spawn ''17'', Pclose]\<rparr>"
proof -
  have a: "list_all event_number [''3'', ''4'', ''17'']"
    by (simp add: event_number_def is_digit_def)
  have b: "enum_output [''3'', ''4'', ''17''] = ''event3\<newline>event4\<newline>event17\<newline>''"
    by (simp add: enum_output_def event_line_def)
  have c: "popen_of \<lparr>popen_of = \<lambda>c. Some ''event3\<newline>event4\<newline>event17\<newline>'',
                      socket_ret = 3, bind_ret = 0, polls = []\<rparr> cmd1
             = Some (enum_output [''3'', ''4'', ''17''])"
    by (simp add: b)
  from startup_enumeration_covers [OF a c] a b show ?thesis
    by auto
qed

text \<open>
  C9 does not hold of the code. When \<^verbatim>\<open>popen\<close> returns the null handle, the branch
  for it writes a line and falls through, and the loop hands the null handle to
  \<^verbatim>\<open>feof\<close>. (\<^verbatim>\<open>is_keyboard\<close> returns in the same branch.)
\<close>

theorem start_exists_device_null_handle:
  "popen_fails cmd1 = None \<and> start_exists_device popen_fails st = Inl Null_stream"
  by (simp add: start_exists_device_def popen_fails_def)

lemma erase_last_nonempty: "r \<noteq> [] \<Longrightarrow> erase_last r = Inr (butlast r)"
  by (simp add: erase_last_def butlast_conv_take Let_def)

text \<open>
  C10 (as amended). For every line read from the enumeration pipe that holds the token
  \<open>event\<close> and at least one character after it, as the lines \<open>eventN\<close> of the
  enumeration command do, the identifier that \<^verbatim>\<open>get_event_id\<close> extracts is not
  empty, so \<^verbatim>\<open>erase\<close> gets a position within bounds and removes the last character.
\<close>

theorem enum_identifier_nonempty:
  assumes "find_str line ''event'' 0 = Some pos" and "pos + 5 < length line"
  shows "\<exists>r. get_event_id line = Inr r \<and> r \<noteq> [] \<and> erase_last r = Inr (butlast r)"
proof -
  define pos_stop where
    "pos_stop = (case find_str line ''/'' pos of None \<Rightarrow> length line | Some p \<Rightarrow> p)"
  have "pos + 5 \<le> pos_stop"
    using assms find_slash_after_token [OF assms(1)]
    by (auto simp: pos_stop_def split: option.splits)
  then have "0 < pos_stop - pos - 1"
    by simp
  with assms(2) have ne: "take (pos_stop - pos - 1) (drop (pos + 5) line) \<noteq> []"
    by simp
  from assms have "get_event_id line = Inr (take (pos_stop - pos - 1) (drop (pos + 5) line))"
    by (simp add: get_event_id_def substr_def pos_stop_def)
  with ne erase_last_nonempty [OF ne] show ?thesis
    by simp
qed

theorem enum_identifier_nonempty_witness:
  "find_str ''event3\<newline>'' ''event'' 0 = Some 0 \<and> 0 + 5 < length ''event3\<newline>'' \<and>
   get_event_id ''event3\<newline>'' = Inr ''3\<newline>'' \<and> erase_last ''3\<newline>'' = Inr ''3''"
proof -
  have a: "find_str ''event3\<newline>'' ''event'' 0 = Some 0"
    by (simp add: find_str_def)
  have b: "0 + 5 < length ''event3\<newline>''"
    by simp
  have c: "get_event_id ''event3\<newline>'' = Inr ''3\<newline>''"
    by (simp add: get_event_id_def find_str_def substr_def)
  from enum_identifier_nonempty [OF a b] a b c show ?thesis
    by auto
qed

lemma enum_loop_no_token:
  assumes "fgets 64 (s, False) = (Some buf, pip)" and "get_event_id (c_str buf) = Inr []"
  shows "enum_loop (s, False) st = Inl Out_of_range"
  using assms by (subst enum_loop.simps) (simp add: erase_last_def npos_def)

text \<open>
  C10 as stated fails on a line of the form \<open>eventN\<close> that is longer than the buffer:
  \<^verbatim>\<open>fgets\<close> delivers it in two reads, the second has no token, its identifier is
  empty and \<^verbatim>\<open>erase\<close> throws.
\<close>

theorem enum_identifier_empty_counterexample:
  "fgets 64 (''event11111111111111111111111111111111111111111111111111111111111\<newline>'', False)
     = (Some ''event1111111111111111111111111111111111111111111111111111111111'',
        (''1\<newline>'', False)) \<and>
   get_event_id (c_str ''event1111111111111111111111111111111111111111111111111111111111'')
     = Inr ''1111111111111111111111111111111111111111111111111111111111'' \<and>
   fgets 64 (''1\<newline>'', False) = (Some ''1\<newline>'', ([], False)) \<and>
   get_event_id (c_str ''1\<newline>'') = Inr [] \<and>
   erase_last [] = Inl Out_of_range \<and>
   start_exists_device
       (enum_only ''event11111111111111111111111111111111111111111111111111111111111\<newline>'')
       init_state
     = Inl Out_of_range"
proof -
  have a: "fgets 64 (''event11111111111111111111111111111111111111111111111111111111111\<newline>'', False)
     = (Some ''event1111111111111111111111111111111111111111111111111111111111'',
        (''1\<newline>'', False))"
    by (simp add: fgets_def eval_nat_numeral)
  have b: "get_event_id (c_str ''event1111111111111111111111111111111111111111111111111111111111'')
     = Inr ''1111111111111111111111111111111111111111111111111111111111''"
    by (simp add: get_event_id_def c_str_def find_str_def substr_def)
  have c: "fgets 64 (''1\<newline>'', False) = (Some ''1\<newline>'', ([], False))"
    by (simp add: fgets_def eval_nat_numeral)
  have d: "get_event_id (c_str ''1\<newline>'') = Inr []"
    by (simp add: get_event_id_def c_str_def find_str_def)
  have e: "erase_last [] = Inl Out_of_range"
    by (simp add: erase_last_def npos_def)
  have "enum_loop (''event11111111111111111111111111111111111111111111111111111111111\<newline>'', False) st
          = Inl Out_of_range" for st
    by (subst enum_loop.simps) (simp add: a b erase_last_nonempty enum_loop_no_token [OF c d])
  with a b c d e show ?thesis
    by (simp add: start_exists_device_def enum_only_def)
qed

subsection \<open>The registry under hotplug notifications\<close>

lemma is_keyboard_registry:
  "is_keyboard popen event_id st = (kb, st1) \<Longrightarrow>
     key_detect_threads st1 = key_detect_threads st \<and> all_threads st1 = all_threads st"
  by (auto simp: is_keyboard_def log_def Let_def split: if_splits option.splits prod.splits)

lemma handle_notification_distinct:
  assumes "distinct (key_detect_threads st)" and "handle_notification popen buf st = Inr st1"
  shows "distinct (key_detect_threads st1)"
proof -
  obtain r where r: "get_event_id buf = Inr r"
    using get_event_id_total by blast
  obtain kb st2 where k: "is_keyboard popen r st = (kb, st2)"
    by (cases "is_keyboard popen r st") auto
  from is_keyboard_registry [OF k] assms r k show ?thesis
    by (auto simp: handle_notification_def Let_def event_id_exists_def spawn_key_detect_def
                   del_event_id_def log_def distinct_removeAll
             split: if_splits)
qed

lemma listen_step_distinct:
  assumes "distinct (key_detect_threads st)" and "listen_step popen p st = Inr st1"
  shows "distinct (key_detect_threads st1)"
proof (cases p)
  case (Received datagram)
  have "distinct (key_detect_threads (log Recv (log Select st)))"
    using assms(1) by (simp add: log_def)
  with assms(2) Received show ?thesis
    by (auto simp: listen_step_def Let_def split: if_splits
             dest: handle_notification_distinct)
qed (use assms in \<open>auto simp: listen_step_def log_def\<close>)

lemma listen_distinct:
  "distinct (key_detect_threads st) \<Longrightarrow> listen popen ps st = Inr st1 \<Longrightarrow>
     distinct (key_detect_threads st1)"
proof (induction ps arbitrary: st)
  case Nil
  then show ?case by simp
next
  case (Cons p ps)
  then obtain st2 where s: "listen_step popen p st = Inr st2" and l: "listen popen ps st2 = Inr st1"
    by (auto split: sum.splits)
  from listen_step_distinct [OF Cons.prems(1) s] have "distinct (key_detect_threads st2)" .
  from Cons.IH [OF this l] show ?case .
qed

lemma handle_added_registered:
  assumes "prefix ''add'' buf" and "get_event_id buf = Inr event_id"
      and "event_id_exists event_id st"
  shows "handle_notification popen buf st = Inr st"
  using assms by (simp add: handle_notification_def device_state_cases)

lemma count_list_distinct: "distinct xs \<Longrightarrow> x \<in> set xs \<Longrightarrow> count_list xs x = 1"
  by (induction xs) (auto simp: count_list_0_iff)

text \<open>
  What the loop needs when it starts holds after a startup enumeration that names each
  device once: the registry has no identifier twice, and none is empty.
\<close>

lemma startup_registry:
  assumes "popen cmd1 = Some (enum_output ids)" and "list_all event_number ids"
      and "distinct ids"
  shows "\<exists>st. start_exists_device popen init_state = Inr st \<and>
              distinct (key_detect_threads st) \<and> [] \<notin> set (key_detect_threads st)"
proof -
  from assms(2) have "[] \<notin> set ids"
    by (auto simp: list_all_iff event_number_def)
  with start_exists_device_enumeration [of popen ids init_state] assms show ?thesis
    by (simp add: init_state_def)
qed

text \<open>No notification registers a task under the empty identifier.\<close>

lemma handle_notification_no_empty_id:
  assumes "[] \<notin> set (key_detect_threads st)" and "handle_notification popen buf st = Inr st1"
  shows "[] \<notin> set (key_detect_threads st1)"
proof -
  obtain r where r: "get_event_id buf = Inr r"
    using get_event_id_total by blast
  obtain kb st2 where k: "is_keyboard popen r st = (kb, st2)"
    by (cases "is_keyboard popen r st") auto
  have "r \<noteq> []" if kb
    using that k by (auto simp: is_keyboard_def)
  with is_keyboard_registry [OF k] assms r k show ?thesis
    by (auto simp: handle_notification_def Let_def event_id_exists_def spawn_key_detect_def
                   del_event_id_def log_def
             split: if_splits)
qed

lemma listen_no_empty_id:
  "[] \<notin> set (key_detect_threads st) \<Longrightarrow> listen popen ps st = Inr st1 \<Longrightarrow>
     [] \<notin> set (key_detect_threads st1)"
proof (induction ps arbitrary: st)
  case Nil
  then show ?case by simp
next
  case (Cons p ps)
  then obtain st2 where s: "listen_step popen p st = Inr st2" and l: "listen popen ps st2 = Inr st1"
    by (auto split: sum.splits)
  have "[] \<notin> set (key_detect_threads st2)"
  proof (cases p)
    case (Received datagram)
    have "[] \<notin> set (key_detect_threads (log Recv (log Select st)))"
      using Cons.prems(1) by (simp add: log_def)
    with s Received show ?thesis
      by (auto simp: listen_step_def Let_def split: if_splits
               dest: handle_notification_no_empty_id)
  qed (use s Cons.prems(1) in \<open>auto simp: listen_step_def log_def\<close>)
  from Cons.IH [OF this l] show ?case .
qed





text \<open>
  C2 (as amended). While hotplug notifications are handled, at most one live task exists
  for every identifier, provided that this holds when the loop starts; and starting an
  identifier that is registered already is a no-op on the add path: when an add
  notification has left a live task for its identifier, handling the same notification
  again changes nothing, whatever the probe says then, and exactly one live task exists
  for the identifier.
\<close>

theorem hotplug_start_idempotent:
  assumes "distinct (key_detect_threads st)" and "listen popen ps st = Inr st1"
      and "prefix ''add'' buf" and "get_event_id buf = Inr event_id"
      and "handle_notification popen buf st1 = Inr st2"
      and "event_id \<in> set (key_detect_threads st2)"
  shows "distinct (key_detect_threads st1) \<and>
         handle_notification popen' buf st2 = Inr st2 \<and>
         live_tasks event_id st2 = 1"
proof -
  have d1: "distinct (key_detect_threads st1)"
    using listen_distinct assms(1,2) by blast
  then have d2: "distinct (key_detect_threads st2)"
    using handle_notification_distinct assms(5) by blast
  have "event_id_exists event_id st2"
    using assms(6) by (simp add: event_id_exists_def)
  from handle_added_registered [OF assms(3,4) this] d1 count_list_distinct [OF d2 assms(6)]
  show ?thesis by (simp add: live_tasks_def)
qed

theorem hotplug_start_idempotent_witness:
  "distinct (key_detect_threads init_state) \<and>
   listen (\<lambda>c. Some ''H: Handlers=sysrq kbd event5 leds'') [Timed_out] init_state =
     Inr \<lparr>key_detect_threads = [], all_threads = [], trace = [Select]\<rparr> \<and>
   get_event_id ''add@/devices/input9/event5'' = Inr ''5'' \<and>
   handle_notification (\<lambda>c. Some ''H: Handlers=sysrq kbd event5 leds'')
       ''add@/devices/input9/event5''
       \<lparr>key_detect_threads = [], all_threads = [], trace = [Select]\<rparr> =
     Inr \<lparr>key_detect_threads = [''5''], all_threads = [''5''],
          trace = [Select, Popen (cmd2 @ ''5''), Pclose, Spawn ''5'']\<rparr> \<and>
   handle_notification popen_fails ''add@/devices/input9/event5''
       \<lparr>key_detect_threads = [''5''], all_threads = [''5''],
        trace = [Select, Popen (cmd2 @ ''5''), Pclose, Spawn ''5'']\<rparr> =
     Inr \<lparr>key_detect_threads = [''5''], all_threads = [''5''],
          trace = [Select, Popen (cmd2 @ ''5''), Pclose, Spawn ''5'']\<rparr> \<and>
   live_tasks ''5'' \<lparr>key_detect_threads = [''5''], all_threads = [''5''],
          trace = [Select, Popen (cmd2 @ ''5''), Pclose, Spawn ''5'']\<rparr> = 1"
proof -
  let ?P = "\<lambda>c::string. Some ''H: Handlers=sysrq kbd event5 leds''"
  let ?S1 = "\<lparr>key_detect_threads = [], all_threads = [], trace = [Select]\<rparr>"
  let ?S2 = "\<lparr>key_detect_threads = [''5''], all_threads = [''5''],
          trace = [Select, Popen (cmd2 @ ''5''), Pclose, Spawn ''5'']\<rparr>"
  have a: "distinct (key_detect_threads init_state)"
    by (simp add: init_state_def)
  have b: "listen ?P [Timed_out] init_state = Inr ?S1"
    by (simp add: listen_step_def log_def init_state_def)
  have c: "prefix ''add'' ''add@/devices/input9/event5''"
    by simp
  have d: "get_event_id ''add@/devices/input9/event5'' = Inr ''5''"
    by (simp add: get_event_id_def find_str_def substr_def)
  have e: "handle_notification ?P ''add@/devices/input9/event5'' ?S1 = Inr ?S2"
    by (simp add: handle_notification_def d device_state_cases event_id_exists_def
          is_keyboard_def fgets_def eval_nat_numeral log_def spawn_key_detect_def)
  have f: "''5'' \<in> set (key_detect_threads ?S2)"
    by simp
  from hotplug_start_idempotent [OF a b c d e f, of popen_fails] a b d e show ?thesis
    by (simp add: live_tasks_def)
qed


lemma enum_only_run:
  assumes "list_all event_number ids"
  shows "start_exists_device (enum_only (enum_output ids)) init_state =
           Inr \<lparr>key_detect_threads = ids, all_threads = ids,
                trace = [Popen cmd1] @ map Spawn ids @ [Pclose]\<rparr>"
  using start_exists_device_enumeration [of "enum_only (enum_output ids)" ids init_state] assms
  by (simp add: enum_only_def init_state_def)

text \<open>
  C2 as stated fails for the startup enumerator, which spawns a task for every line it
  reads and does not ask whether one exists: an enumeration that names \<open>event3\<close> twice
  leaves two live tasks for the identifier \<open>3\<close>.
\<close>

theorem startup_duplicate_counterexample:
  "enum_output [''3'', ''3''] = ''event3\<newline>event3\<newline>'' \<and>
   start_exists_device (enum_only ''event3\<newline>event3\<newline>'') init_state =
     Inr \<lparr>key_detect_threads = [''3'', ''3''], all_threads = [''3'', ''3''],
          trace = [Popen cmd1, Spawn ''3'', Spawn ''3'', Pclose]\<rparr> \<and>
   live_tasks ''3'' \<lparr>key_detect_threads = [''3'', ''3''], all_threads = [''3'', ''3''],
          trace = [Popen cmd1, Spawn ''3'', Spawn ''3'', Pclose]\<rparr> = 2"
proof -
  have a: "list_all event_number [''3'', ''3'']"
    by (simp add: event_number_def is_digit_def)
  have b: "enum_output [''3'', ''3''] = ''event3\<newline>event3\<newline>''"
    by (simp add: enum_output_def event_line_def)
  from enum_only_run [OF a] b show ?thesis
    by (simp add: live_tasks_def)
qed

subsection \<open>The events of the shutdown in the trace of a run\<close>

lemma is_keyboard_shutdown_event:
  "is_keyboard popen event_id st = (kb, st1) \<Longrightarrow>
     filter shutdown_event (trace st1) = filter shutdown_event (trace st)"
  by (auto simp: is_keyboard_def log_def Let_def split: if_splits option.splits prod.splits)

lemma handle_notification_shutdown_event:
  assumes "handle_notification popen buf st = Inr st1"
  shows "filter shutdown_event (trace st1) = filter shutdown_event (trace st)"
proof -
  obtain r where r: "get_event_id buf = Inr r"
    using get_event_id_total by blast
  obtain kb st2 where k: "is_keyboard popen r st = (kb, st2)"
    by (cases "is_keyboard popen r st") auto
  from is_keyboard_shutdown_event [OF k] assms r k show ?thesis
    by (auto simp: handle_notification_def Let_def spawn_key_detect_def
                   del_event_id_def log_def
             split: if_splits)
qed

lemma listen_step_shutdown_event:
  assumes "listen_step popen p st = Inr st1"
  shows "filter shutdown_event (trace st1) = filter shutdown_event (trace st)"
proof (cases p)
  case (Received datagram)
  have "filter shutdown_event (trace (log Recv (log Select st))) = filter shutdown_event (trace st)"
    by (simp add: log_def)
  with assms Received show ?thesis
    by (auto simp: listen_step_def Let_def split: if_splits
             dest: handle_notification_shutdown_event)
qed (use assms in \<open>auto simp: listen_step_def log_def\<close>)

lemma listen_shutdown_event:
  "listen popen ps st = Inr st1 \<Longrightarrow>
     filter shutdown_event (trace st1) = filter shutdown_event (trace st)"
proof (induction ps arbitrary: st)
  case Nil
  then show ?case by simp
next
  case (Cons p ps)
  then obtain st2 where s: "listen_step popen p st = Inr st2" and l: "listen popen ps st2 = Inr st1"
    by (auto split: sum.splits)
  from listen_step_shutdown_event [OF s] Cons.IH [OF l] show ?case by simp
qed

lemma enum_loop_shutdown_event:
  "enum_loop pip st = Inr st1 \<Longrightarrow>
     filter shutdown_event (trace st1) = filter shutdown_event (trace st)"
proof (induction pip st rule: enum_loop.induct)
  case (1 pip st)
  show ?case
  proof (cases "snd pip")
    case True
    with "1.prems" show ?thesis
      by (subst (asm) enum_loop.simps) simp
  next
    case False
    obtain x pip' where f: "fgets 64 pip = (x, pip')"
      by (cases "fgets 64 pip") auto
    show ?thesis
    proof (cases x)
      case None
      with "1.prems" False f have "enum_loop pip' st = Inr st1"
        by (subst (asm) enum_loop.simps) simp
      with "1.IH"(1) [OF False f [symmetric] None] show ?thesis .
    next
      case (Some buf)
      with "1.prems" False f obtain r event_id where
        r: "get_event_id (c_str buf) = Inr r" and e: "erase_last r = Inr event_id"
        and l: "enum_loop pip' (spawn_key_detect event_id st) = Inr st1"
        by (subst (asm) enum_loop.simps) (auto split: sum.splits)
      from "1.IH"(2) [OF False f [symmetric] Some r e l] show ?thesis
        by (simp add: spawn_key_detect_def log_def)
    qed
  qed
qed

lemma start_exists_device_shutdown_event:
  "start_exists_device popen st = Inr st1 \<Longrightarrow>
     filter shutdown_event (trace st1) = filter shutdown_event (trace st)"
  by (auto simp: start_exists_device_def Let_def log_def
           split: option.splits sum.splits dest!: enum_loop_shutdown_event)

lemma shutdown_trace:
  "0 < sock_fd \<Longrightarrow>
     trace (shutdown sock_fd st) = trace st @ [Clear_all, Close sock_fd] @ map Join (all_threads st)
     \<and> all_threads (shutdown sock_fd st) = all_threads st"
  by (simp add: shutdown_def join_all_def clear_all_key_detect_threads_def log_def)

lemma init_socket_opened:
  assumes "0 \<le> s" and "0 \<le> b"
  shows "\<exists>st1. init_socket s b st = (s, st1) \<and>
           filter shutdown_event (trace st1) = filter shutdown_event (trace st)"
  using assms by (auto simp: init_socket_def Let_def log_def)

lemma filter_shutdown_event_Join: "filter shutdown_event (map Join xs) = map Join xs"
  by (induction xs) simp_all

text \<open>
  C3 (as amended). In a run that opens the socket on a positive descriptor and comes to
  its end, the shutdown first signals cancellation to all registered tasks, then closes
  the socket and only then joins the threads, all of them; each of the three happens
  once in the run and nowhere else.
\<close>

theorem shutdown_order:
  assumes "device_detect e init_state = Inr st"
      and "0 < socket_ret e" and "0 \<le> bind_ret e"
  shows "filter shutdown_event (trace st) =
           [Clear_all, Close (socket_ret e)] @ map Join (all_threads st)"
proof -
  from assms(1) obtain st1 where
    s: "start_exists_device (popen_of e) init_state = Inr st1" and
    h: "hotplug_listener e st1 = Inr st"
    by (auto simp: device_detect_def split: sum.splits)
  have q1: "filter shutdown_event (trace st1) = []"
    using start_exists_device_shutdown_event [OF s] by (simp add: init_state_def)
  from assms(2,3) obtain st2 where
    i: "init_socket (socket_ret e) (bind_ret e) st1 = (socket_ret e, st2)" and
    q2: "filter shutdown_event (trace st2) = filter shutdown_event (trace st1)"
    using init_socket_opened [of "socket_ret e" "bind_ret e" st1] by auto
  from h i assms(2) obtain st3 where
    l: "listen (popen_of e) (polls e) st2 = Inr st3" and
    st: "st = shutdown (socket_ret e) st3"
    by (auto simp: hotplug_listener_def split: sum.splits)
  have "filter shutdown_event (trace st3) = []"
    using listen_shutdown_event [OF l] q1 q2 by simp
  with shutdown_trace [OF assms(2), of st3] st show ?thesis
    by (simp add: filter_shutdown_event_Join)
qed

lemma example_run:
  "device_detect \<lparr>popen_of = enum_only ''event3\<newline>'', socket_ret = 3, bind_ret = 0,
                   polls = [Timed_out]\<rparr> init_state =
     Inr \<lparr>key_detect_threads = [], all_threads = [''3''],
          trace = [Popen cmd1, Spawn ''3'', Pclose, Socket, Bind, Select,
                   Clear_all, Close 3, Join ''3'']\<rparr>"
proof -
  have a: "list_all event_number [''3'']"
    by (simp add: event_number_def is_digit_def)
  have b: "enum_output [''3''] = ''event3\<newline>''"
    by (simp add: enum_output_def event_line_def)
  have s: "start_exists_device (enum_only ''event3\<newline>'') init_state =
             Inr \<lparr>key_detect_threads = [''3''], all_threads = [''3''],
                  trace = [Popen cmd1, Spawn ''3'', Pclose]\<rparr>"
    using enum_only_run [OF a] b by simp
  show ?thesis
    by (simp add: device_detect_def s hotplug_listener_def init_socket_def log_def
          listen_step_def shutdown_def clear_all_key_detect_threads_def join_all_def)
qed

theorem shutdown_order_witness:
  "device_detect \<lparr>popen_of = enum_only ''event3\<newline>'', socket_ret = 3, bind_ret = 0,
                   polls = [Timed_out]\<rparr> init_state =
     Inr \<lparr>key_detect_threads = [], all_threads = [''3''],
          trace = [Popen cmd1, Spawn ''3'', Pclose, Socket, Bind, Select,
                   Clear_all, Close 3, Join ''3'']\<rparr> \<and>
   filter shutdown_event [Popen cmd1, Spawn ''3'', Pclose, Socket, Bind, Select,
                   Clear_all, Close 3, Join ''3''] = [Clear_all, Close 3, Join ''3'']"
  using shutdown_order [OF example_run] example_run by simp

text \<open>
  C3 as stated fails: in the run of one keyboard and one turn of the loop, the socket is
  not closed before the cancellation is signalled, but after it.
\<close>

theorem shutdown_order_counterexample:
  "run_trace \<lparr>popen_of = enum_only ''event3\<newline>'', socket_ret = 3, bind_ret = 0,
               polls = [Timed_out]\<rparr> =
     Some [Popen cmd1, Spawn ''3'', Pclose, Socket, Bind, Select,
           Clear_all, Close 3, Join ''3''] \<and>
   \<not> precedes (Close 3) Clear_all
       [Popen cmd1, Spawn ''3'', Pclose, Socket, Bind, Select, Clear_all, Close 3, Join ''3''] \<and>
   precedes Clear_all (Close 3)
       [Popen cmd1, Spawn ''3'', Pclose, Socket, Bind, Select, Clear_all, Close 3, Join ''3'']"
  by (simp add: run_trace_def example_run precedes_def)

end
